theory Spec2Isabelle
  imports Main
begin

section \<open>The PBS option parser of vsc-tools-lib (src/vsc/qlint/pbs\_option\_parser.py)\<close>

text \<open>
  The module is Python 2; its strings are byte strings, modelled as \<open>string\<close>.
  Exceptions are values: a function that can raise returns a sum whose left side holds
  the exception together with the event list at the moment of the raise (the events are
  a mutable attribute of the parser, so they survive the exception).
\<close>

subsection \<open>Python string primitives\<close>

definition isspace :: "char \<Rightarrow> bool" where
  \<comment> \<open>the characters \<open>str.strip()\<close> removes: space, tab, newline, VT, FF, CR\<close>
  "isspace c = (c \<in> set [CHR '' '', CHR 0x09, CHR 0x0A, CHR 0x0B, CHR 0x0C, CHR 0x0D])"

definition strip :: "string \<Rightarrow> string" where
  "strip s = rev (dropWhile isspace (rev (dropWhile isspace s)))"

fun split_on :: "char \<Rightarrow> string \<Rightarrow> string list" where
  \<comment> \<open>\<open>s.split(sep)\<close> for a one-character separator: never an empty list\<close>
  "split_on sep [] = [[]]"
| "split_on sep (c # cs) =
     (if c = sep then [] # split_on sep cs
      else (case split_on sep cs of
              [] \<Rightarrow> [[c]]
            | p # ps \<Rightarrow> (c # p) # ps))"

definition split_once :: "char \<Rightarrow> string \<Rightarrow> string list" where
  \<comment> \<open>\<open>s.split(sep, 1)\<close>: split at the first separator only\<close>
  "split_once sep s =
     (if sep \<in> set s
      then [takeWhile (\<lambda>c. c \<noteq> sep) s, tl (dropWhile (\<lambda>c. c \<noteq> sep) s)]
      else [s])"

definition startswith :: "string \<Rightarrow> string \<Rightarrow> bool" where
  "startswith s p = (take (length p) s = p)"

definition digit_char :: "char \<Rightarrow> bool" where
  "digit_char c = (c \<in> set ''0123456789'')"

definition isdigit :: "string \<Rightarrow> bool" where
  \<comment> \<open>\<open>s.isdigit()\<close>: at least one character, all of them decimal digits\<close>
  "isdigit s = (s \<noteq> [] \<and> list_all digit_char s)"

definition digit_val :: "char \<Rightarrow> int" where
  "digit_val c = int (of_char c) - 48"

definition int_of_digits :: "string \<Rightarrow> int" where
  \<comment> \<open>\<open>int(s)\<close> on a string of decimal digits; Python integers are unbounded\<close>
  "int_of_digits s = foldl (\<lambda>a c. 10 * a + digit_val c) 0 s"

subsection \<open>Exceptions, events, and the values of the dictionaries\<close>

datatype error =
    ValueError
  | KeyError
  | IndexError
  | AttributeError
  | TypeError
  | InvalidWalltimeError
  | SystemExit
  | OtherError string

record pbs_event =
  event :: string
  extra :: "(string \<times> string) list"

definition reg_event :: "pbs_event list \<Rightarrow> string \<Rightarrow> (string \<times> string) list \<Rightarrow> pbs_event list" where
  \<comment> \<open>\<open>self._events.append({'event': event, 'extra': extra})\<close>\<close>
  "reg_event events ev ex = events @ [\<lparr>event = ev, extra = ex\<rparr>]"

datatype nval = NInt int | NStr string | NList "string list"

type_synonym node_spec = "string \<rightharpoonup> nval"

datatype rval = RInt int | RNodes "node_spec list"

type_synonym resource_spec = "string \<rightharpoonup> rval"

type_synonym 'a raising = "(error \<times> pbs_event list) + ('a \<times> pbs_event list)"

subsection \<open>The converters of vsc.utils\<close>

text \<open>
  \<open>walltime2seconds\<close> and \<open>size2bytes\<close> are imported from \<open>vsc.utils\<close>, which is
  not among the sources. \<open>check_l\<close> takes them as parameters; \<open>walltime2seconds\<close>
  may raise (\<open>InvalidWalltimeError\<close> is the one exception \<open>check_l\<close> catches).
\<close>

record vsc_utils =
  walltime2seconds :: "string \<Rightarrow> error + int"
  size2bytes :: "int \<Rightarrow> string \<Rightarrow> int"

definition duration_to_seconds :: "string \<Rightarrow> error + int" where
  \<comment> \<open>Modelled from the spec: \<open>walltime2seconds\<close> of vsc.utils is missing. The spec's
      grammar is \<open>digits | digits ':' digits | digits ':' digits ':' digits\<close>, read as
      seconds, \<open>MM:SS\<close> and \<open>HH:MM:SS\<close>; anything else fails.\<close>
  "duration_to_seconds text =
     (let parts = split_on CHR '':'' text in
      if length parts \<le> 3 \<and> list_all isdigit parts
      then Inr (foldl (\<lambda>a p. 60 * a + int_of_digits p) 0 parts)
      else Inl InvalidWalltimeError)"

definition size_to_bytes :: "int \<Rightarrow> string \<Rightarrow> int" where
  \<comment> \<open>Modelled from the spec: \<open>size2bytes\<close> of vsc.utils is missing. The spec gives a
      base-1024 multiplier per unit: k = 2^10, m = 2^20, g = 2^30, t = 2^40.\<close>
  "size_to_bytes amount unit =
     amount * (if unit = ''k'' then 2 ^ 10
               else if unit = ''m'' then 2 ^ 20
               else if unit = ''g'' then 2 ^ 30
               else 2 ^ 40)"

definition spec_utils :: vsc_utils where
  "spec_utils = \<lparr>walltime2seconds = duration_to_seconds, size2bytes = size_to_bytes\<rparr>"

subsection \<open>The size pattern of \<open>check_l\<close>\<close>

definition match_size :: "string \<Rightarrow> (string \<times> string) option" where
  \<comment> \<open>\<open>re.match(r'(\d+)([kmgt])[bw]', s)\<close>: anchored at the start only. The greedy
      \<open>\d+\<close> takes every leading digit (giving one back leaves a digit where the unit
      letter must stand). The result is (group 1, group 2).\<close>
  "match_size s =
     (let ds = takeWhile digit_char s in
      if ds = [] then None
      else (case dropWhile digit_char s of
              u # c # rest \<Rightarrow>
                if u \<in> set ''kmgt'' \<and> c \<in> set ''bw'' then Some (ds, [u]) else None
            | _ \<Rightarrow> None))"

definition match_size_anchored :: "string \<Rightarrow> (string \<times> string) option" where
  \<comment> \<open>the pattern the specification states, \<open>^(\d+)([kmgt])[bw]$\<close>, on a string with
      no trailing newline: nothing may follow the \<open>b\<close> or \<open>w\<close>\<close>
  "match_size_anchored s =
     (let ds = takeWhile digit_char s in
      if ds = [] then None
      else (case dropWhile digit_char s of
              [u, c] \<Rightarrow>
                if u \<in> set ''kmgt'' \<and> c \<in> set ''bw'' then Some (ds, [u]) else None
            | _ \<Rightarrow> None))"

subsection \<open>\<open>check_l\<close>: the resource specifications of \<open>-l\<close>\<close>

definition check_l_spec_str :: "string \<Rightarrow> node_spec \<times> pbs_event list \<Rightarrow> node_spec raising" where
  \<comment> \<open>body of \<open>for spec_str in spec_strs[1:]\<close> (lines 158-168)\<close>
  "check_l_spec_str spec_str st =
     (case st of (node_spec, events) \<Rightarrow>
        if startswith spec_str ''ppn='' \<or> startswith spec_str ''gpus='' then
          (case split_on CHR ''='' spec_str of
             [key, value] \<Rightarrow>
               if isdigit value
               then Inr (node_spec(key \<mapsto> NInt (int_of_digits value)), events)
               else Inr (node_spec, reg_event events (key @ ''_no_number'') [(''number'', value)])
           | _ \<Rightarrow> Inl (ValueError, events))
        else
          (case node_spec ''features'' of
             Some (NList features) \<Rightarrow>
               Inr (node_spec(''features'' \<mapsto> NList (features @ [spec_str])), events)
           | Some _ \<Rightarrow> Inl (AttributeError, events)
           | None \<Rightarrow> Inl (KeyError, events)))"

fun for_each :: "('a \<Rightarrow> 's \<times> pbs_event list \<Rightarrow> 's raising) \<Rightarrow> 'a list \<Rightarrow> 's \<times> pbs_event list \<Rightarrow> 's raising" where
  \<comment> \<open>a \<open>for\<close> loop whose body may raise: the first exception ends the loop\<close>
  "for_each body [] st = Inr st"
| "for_each body (x # xs) st =
     (case body x st of
        Inl e \<Rightarrow> Inl e
      | Inr st' \<Rightarrow> for_each body xs st')"

definition check_l_node_spec :: "string \<Rightarrow> node_spec list \<times> pbs_event list \<Rightarrow> (node_spec list) raising" where
  \<comment> \<open>body of \<open>for node_spec_str in node_spec_strs\<close> (lines 146-169)\<close>
  "check_l_node_spec node_spec_str st =
     (case st of (node_specs, events) \<Rightarrow>
        (case split_on CHR '':'' node_spec_str of
           [] \<Rightarrow> Inl (IndexError, events)
         | first # others \<Rightarrow>
             (case for_each check_l_spec_str others
                     (if isdigit first
                      then [''features'' \<mapsto> NList [], ''nodes'' \<mapsto> NInt (int_of_digits first)]
                      else [''features'' \<mapsto> NList [], ''nodes'' \<mapsto> NInt 1, ''host'' \<mapsto> NStr first],
                      events) of
                Inl e \<Rightarrow> Inl e
              | Inr (node_spec, events') \<Rightarrow> Inr (node_specs @ [node_spec], events'))))"

definition check_l_val :: "vsc_utils \<Rightarrow> string \<Rightarrow> resource_spec \<times> pbs_event list \<Rightarrow> resource_spec raising" where
  \<comment> \<open>body of \<open>for val in (x.strip() for x in val_str.split(','))\<close> (lines 122-172),
      on the stripped \<open>val\<close>\<close>
  "check_l_val U val st =
     (case st of (resource_spec, events) \<Rightarrow>
        if startswith val ''walltime='' \<or> startswith val ''cput='' then
          (case split_on CHR ''='' val of
             [attr_name, attr_value] \<Rightarrow>
               (case walltime2seconds U attr_value of
                  Inr seconds \<Rightarrow> Inr (resource_spec(attr_name \<mapsto> RInt seconds), events)
                | Inl e \<Rightarrow>
                    if e = InvalidWalltimeError
                    then Inr (resource_spec,
                              reg_event events (''invalid_'' @ attr_name @ ''_format'')
                                [(''time'', attr_value)])
                    else Inl (e, events))
           | _ \<Rightarrow> Inl (ValueError, events))
        else if startswith val ''mem='' \<or> startswith val ''pmem='' then
          (case split_on CHR ''='' val of
             [attr_name, attr_value] \<Rightarrow>
               (case match_size attr_value of
                  Some (amount, order) \<Rightarrow>
                    Inr (resource_spec(attr_name \<mapsto> RInt (size2bytes U (int_of_digits amount) order)),
                         events)
                | None \<Rightarrow>
                    Inr (resource_spec,
                         reg_event events (''invalid_'' @ attr_name @ ''_format'')
                           [(''size'', attr_value)]))
           | _ \<Rightarrow> Inl (ValueError, events))
        else if startswith val ''nodes='' then
          (case split_once CHR ''='' val of
             [attr_name, attr_value] \<Rightarrow>
               (case for_each check_l_node_spec (split_on CHR ''+'' attr_value) ([], events) of
                  Inl e \<Rightarrow> Inl e
                | Inr (node_specs, events') \<Rightarrow>
                    Inr (resource_spec(''nodes'' \<mapsto> RNodes node_specs), events'))
           | _ \<Rightarrow> Inl (ValueError, events))
        else Inr (resource_spec, reg_event events ''unknown_resource_spec'' [(''spec'', val)]))"

definition sub_clauses :: "string \<Rightarrow> string list" where
  \<comment> \<open>\<open>(x.strip() for x in val_str.split(','))\<close>\<close>
  "sub_clauses val_str = map strip (split_on CHR '','' val_str)"

definition check_l_val_str :: "vsc_utils \<Rightarrow> string \<Rightarrow> resource_spec \<times> pbs_event list \<Rightarrow> resource_spec raising" where
  \<comment> \<open>body of \<open>for val_str in (x.strip() for x in vals)\<close>, on the stripped \<open>val_str\<close>\<close>
  "check_l_val_str U val_str st = for_each (check_l_val U) (sub_clauses val_str) st"

definition check_l :: "vsc_utils \<Rightarrow> string list \<Rightarrow> pbs_event list \<Rightarrow> resource_spec raising" where
  \<comment> \<open>\<open>check_l(self, vals)\<close> up to the hand-over of \<open>resource_spec\<close> to the job: the
      result is the dictionary built and the parser's events\<close>
  "check_l U vals events = for_each (check_l_val_str U) (map strip vals) (Map.empty, events)"

subsection \<open>What a call leaves behind\<close>

definition events_of :: "'a raising \<Rightarrow> pbs_event list" where
  \<comment> \<open>the parser's events after the call, whether it returned or raised\<close>
  "events_of r = (case r of Inl (e, events) \<Rightarrow> events | Inr (x, events) \<Rightarrow> events)"

definition raised :: "'a raising \<Rightarrow> error option" where
  "raised r = (case r of Inl (e, events) \<Rightarrow> Some e | Inr (x, events) \<Rightarrow> None)"

definition frame :: "('s \<Rightarrow> 's) \<Rightarrow> pbs_event list \<Rightarrow> 's raising \<Rightarrow> 's raising" where
  \<comment> \<open>the same outcome seen from a larger state: earlier events in front, and the
      returned state embedded by \<open>f\<close>\<close>
  "frame f earlier r =
     (case r of
        Inl (e, events) \<Rightarrow> Inl (e, earlier @ events)
      | Inr (x, events) \<Rightarrow> Inr (f x, earlier @ events))"

definition all_sub_clauses :: "string list \<Rightarrow> string list" where
  \<comment> \<open>every sub-clause the two nested loops of \<open>check_l\<close> visit, in order\<close>
  "all_sub_clauses vals = concat (map (\<lambda>x. sub_clauses (strip x)) vals)"

definition assigned :: "vsc_utils \<Rightarrow> string \<Rightarrow> string \<Rightarrow> rval option" where
  \<comment> \<open>the value a sub-clause on its own stores under an attribute name, if any\<close>
  "assigned U val k =
     (case check_l_val U val (Map.empty, []) of
        Inl e \<Rightarrow> None
      | Inr (resource_spec, events) \<Rightarrow> resource_spec k)"

definition number_of :: "string \<Rightarrow> string" where
  \<comment> \<open>the text after the first \<open>=\<close> of a token\<close>
  "number_of spec_str = tl (dropWhile (\<lambda>c. c \<noteq> CHR ''='') spec_str)"

definition no_number :: "string \<Rightarrow> bool" where
  \<comment> \<open>a token \<open>ppn=\<close> or \<open>gpus=\<close> followed by something that is not a number\<close>
  "no_number t =
     ((startswith t ''ppn='' \<or> startswith t ''gpus='') \<and> \<not> isdigit (number_of t))"

definition second_equals :: "string \<Rightarrow> bool" where
  \<comment> \<open>a token \<open>ppn=\<close> or \<open>gpus=\<close> with another \<open>=\<close> further on\<close>
  "second_equals t =
     ((startswith t ''ppn='' \<or> startswith t ''gpus='') \<and> CHR ''='' \<in> set (number_of t))"

definition no_number_tokens :: "string \<Rightarrow> string list" where
  \<comment> \<open>those tokens of a node clause, the first apart\<close>
  "no_number_tokens node_spec_str = filter no_number (tl (split_on CHR '':'' node_spec_str))"

definition node_clauses :: "string \<Rightarrow> string list" where
  \<comment> \<open>the \<open>+\<close>-separated node clauses of a \<open>nodes=\<close> sub-clause\<close>
  "node_clauses val = split_on CHR ''+'' (drop 6 val)"

definition has_second_equals :: "string \<Rightarrow> bool" where
  \<comment> \<open>some token after the first, in some node clause of a \<open>nodes=\<close> sub-clause, is
      \<open>ppn=\<close> or \<open>gpus=\<close> with another \<open>=\<close> further on\<close>
  "has_second_equals val =
     list_ex (\<lambda>c. list_ex second_equals (tl (split_on CHR '':'' c))) (node_clauses val)"





definition leading_token :: "string \<Rightarrow> string" where
  \<comment> \<open>\<open>node_spec_str.split(':')[0]\<close>; the split is never empty\<close>
  "leading_token node_spec_str = hd (split_on CHR '':'' node_spec_str)"

definition nodes_of :: "resource_spec \<Rightarrow> node_spec list" where
  \<comment> \<open>the node specifications stored under \<open>nodes\<close>\<close>
  "nodes_of resource_spec =
     (case resource_spec ''nodes'' of
        Some (RNodes node_specs) \<Rightarrow> node_specs
      | _ \<Rightarrow> [])"

definition count_and_host :: "string \<Rightarrow> node_spec \<Rightarrow> bool" where
  \<comment> \<open>the specification's rule for the first token of a node clause: all digits, it is
      the count and there is no host; otherwise the count is 1 and it is the host\<close>
  "count_and_host node_spec_str node_spec =
     (if isdigit (leading_token node_spec_str)
      then node_spec ''nodes'' = Some (NInt (int_of_digits (leading_token node_spec_str)))
           \<and> node_spec ''host'' = None
      else node_spec ''nodes'' = Some (NInt 1)
           \<and> node_spec ''host'' = Some (NStr (leading_token node_spec_str)))"

definition count_in_range :: "string \<Rightarrow> node_spec \<Rightarrow> bool" where
  \<comment> \<open>the count is an integer, never negative, and at least 1 unless the first token
      is a number that denotes zero\<close>
  "count_in_range node_spec_str node_spec =
     (case node_spec ''nodes'' of
        Some (NInt n) \<Rightarrow>
          1 \<le> n \<or> (n = 0 \<and> isdigit (leading_token node_spec_str)
                       \<and> int_of_digits (leading_token node_spec_str) = 0)
      | _ \<Rightarrow> False)"

subsection \<open>The option checks other than \<open>-l\<close>\<close>

definition alpha_char :: "char \<Rightarrow> bool" where
  "alpha_char c =
     (c \<in> set ''ABCDEFGHIJKLMNOPQRSTUVWXYZabcdefghijklmnopqrstuvwxyz'')"

definition word_char :: "char \<Rightarrow> bool" where
  \<comment> \<open>\<open>\w\<close> on a Python 2 byte string\<close>
  "word_char c = (alpha_char c \<or> digit_char c \<or> c = CHR ''_'')"

definition at_end :: "string \<Rightarrow> bool" where
  \<comment> \<open>\<open>$\<close> on what is left of the string: the end, or a newline that ends it\<close>
  "at_end r = (r = [] \<or> r = [CHR 0x0A])"

definition match_name :: "string \<Rightarrow> bool" where
  \<comment> \<open>\<open>re.match(r'[A-Za-z]\w*$', val)\<close>\<close>
  "match_name val =
     (case val of
        [] \<Rightarrow> False
      | c # cs \<Rightarrow> alpha_char c \<and> at_end (dropWhile word_char cs))"

definition match_job_name :: "string \<Rightarrow> bool" where
  \<comment> \<open>\<open>re.match(r'[A-Za-z]\w{,14}$', val)\<close>\<close>
  "match_job_name val =
     (case val of
        [] \<Rightarrow> False
      | c # cs \<Rightarrow>
          alpha_char c \<and> length (takeWhile word_char cs) \<le> 14
          \<and> at_end (dropWhile word_char cs))"

definition match_keep :: "string \<Rightarrow> bool" where
  \<comment> \<open>\<open>re.match(r'^[eo]+$', val)\<close>\<close>
  "match_keep val =
     (takeWhile (\<lambda>c. c \<in> set ''eo'') val \<noteq> [] \<and> at_end (dropWhile (\<lambda>c. c \<in> set ''eo'') val))"

definition match_mail_events :: "string \<Rightarrow> bool" where
  \<comment> \<open>\<open>re.match(r'(?:^[bea]{1,3}$)|(?:^n$)', val)\<close>\<close>
  "match_mail_events val =
     ((takeWhile (\<lambda>c. c \<in> set ''bea'') val \<noteq> []
        \<and> length (takeWhile (\<lambda>c. c \<in> set ''bea'') val) \<le> 3
        \<and> at_end (dropWhile (\<lambda>c. c \<in> set ''bea'') val))
      \<or> (case val of [] \<Rightarrow> False | c # cs \<Rightarrow> c = CHR ''n'' \<and> at_end cs))"

text \<open>
  The job is an object of a class that is not among the sources. The parser assigns
  seven of its attributes and calls its method \<open>add_resource_specs\<close>; the rest of the
  job is the field \<open>other\<close>, and the method is a parameter.
\<close>

record 'x job =
  project :: "string option"
  queue :: "string option"
  join :: "string option"
  keep :: "string option"
  mail_events :: "string option"
  mail_addresses :: "string list option"
  name :: "string option"
  other :: 'x

record 'x parser =
  the_job :: "'x job"
  the_events :: "pbs_event list"

datatype pyval = PNone | PStr string | PList "string list"

record 'x pbs_env =
  utils :: vsc_utils
  validate_email :: "string \<Rightarrow> bool"
  arg_parser :: "string \<Rightarrow> error + (string \<times> pyval) list"
  add_resource_specs :: "resource_spec \<Rightarrow> 'x job \<Rightarrow> error + 'x job"

type_synonym 'x stateful = "'x parser \<Rightarrow> (error \<times> 'x parser) + 'x parser"

definition register :: "string \<Rightarrow> (string \<times> string) list \<Rightarrow> 'x parser \<Rightarrow> 'x parser" where
  \<comment> \<open>\<open>self.reg_event(event, extra)\<close>\<close>
  "register ev ex self = self\<lparr>the_events := reg_event (the_events self) ev ex\<rparr>"

definition check_A :: "string \<Rightarrow> 'x parser \<Rightarrow> 'x parser" where
  "check_A val self =
     (if match_name val then self\<lparr>the_job := (the_job self)\<lparr>project := Some val\<rparr>\<rparr>
      else register ''invalid_project_name'' [(''val'', val)] self)"

definition check_q :: "string \<Rightarrow> 'x parser \<Rightarrow> 'x parser" where
  "check_q val self =
     (if match_name val then self\<lparr>the_job := (the_job self)\<lparr>queue := Some val\<rparr>\<rparr>
      else register ''invalid_queue_name'' [(''val'', val)] self)"

definition check_j :: "string \<Rightarrow> 'x parser \<Rightarrow> 'x parser" where
  "check_j val self =
     (if val = ''oe'' \<or> val = ''eo'' \<or> val = ''n''
      then self\<lparr>the_job := (the_job self)\<lparr>join := Some val\<rparr>\<rparr>
      else register ''invalid_join'' [(''val'', val)] self)"

definition check_k :: "string \<Rightarrow> 'x parser \<Rightarrow> 'x parser" where
  "check_k val self =
     (if match_keep val \<or> val = ''n''
      then self\<lparr>the_job := (the_job self)\<lparr>keep := Some val\<rparr>\<rparr>
      else register ''invalid_join'' [(''val'', val)] self)"

definition check_m :: "string \<Rightarrow> 'x parser \<Rightarrow> 'x parser" where
  "check_m val self =
     (if match_mail_events val
      then self\<lparr>the_job := (the_job self)\<lparr>mail_events := Some val\<rparr>\<rparr>
      else register ''invalid_mail_event'' [(''val'', val)] self)"

definition check_M :: "'x pbs_env \<Rightarrow> string \<Rightarrow> 'x parser \<Rightarrow> 'x parser" where
  "check_M E val self =
     foldl (\<lambda>self address.
              if \<not> validate_email E address
              then register ''invalid_mail_address'' [(''address'', address)] self
              else self)
       (self\<lparr>the_job := (the_job self)\<lparr>mail_addresses := Some (split_on CHR '','' val)\<rparr>\<rparr>)
       (split_on CHR '','' val)"

definition check_N :: "string \<Rightarrow> 'x parser \<Rightarrow> 'x parser" where
  "check_N val self =
     (if match_job_name val then self\<lparr>the_job := (the_job self)\<lparr>name := Some val\<rparr>\<rparr>
      else register ''invalid_job_name'' [(''val'', val)] self)"

definition check_l_self :: "'x pbs_env \<Rightarrow> string list \<Rightarrow> 'x stateful" where
  \<comment> \<open>the whole of \<open>check_l(self, vals)\<close>: the loops, then
      \<open>self._job.add_resource_specs(resource_spec)\<close>\<close>
  "check_l_self E vals self =
     (case check_l (utils E) vals (the_events self) of
        Inl (e, events) \<Rightarrow> Inl (e, self\<lparr>the_events := events\<rparr>)
      | Inr (resource_spec, events) \<Rightarrow>
          (case add_resource_specs E resource_spec (the_job self) of
             Inl e \<Rightarrow> Inl (e, self\<lparr>the_events := events\<rparr>)
           | Inr j \<Rightarrow> Inr (self\<lparr>the_job := j, the_events := events\<rparr>)))"

definition stripped :: "pyval \<Rightarrow> (string \<Rightarrow> 'x parser \<Rightarrow> 'x parser) \<Rightarrow> 'x stateful" where
  \<comment> \<open>\<open>self.check_X(value.strip())\<close>: only a string has \<open>strip\<close>\<close>
  "stripped value check self =
     (case value of
        PStr s \<Rightarrow> Inr (check (strip s) self)
      | _ \<Rightarrow> Inl (AttributeError, self))"

definition handle_option :: "'x pbs_env \<Rightarrow> string \<Rightarrow> pyval \<Rightarrow> 'x stateful" where
  "handle_option E option value self =
     (if option = ''A'' then stripped value check_A self
      else if option = ''j'' then stripped value check_j self
      else if option = ''k'' then stripped value check_k self
      else if option = ''l'' then
        (case value of
           PList vals \<Rightarrow> check_l_self E vals self
         | PStr s \<Rightarrow> check_l_self E (map (\<lambda>c. [c]) s) self
         | PNone \<Rightarrow> Inl (TypeError, self))
      else if option = ''m'' then stripped value check_m self
      else if option = ''M'' then stripped value (check_M E) self
      else if option = ''N'' then stripped value check_N self
      else if option = ''q'' then stripped value check_q self
      else Inr self)"

definition truthy :: "pyval \<Rightarrow> bool" where
  \<comment> \<open>\<open>if value:\<close>\<close>
  "truthy value = (case value of PNone \<Rightarrow> False | PStr s \<Rightarrow> s \<noteq> [] | PList l \<Rightarrow> l \<noteq> [])"

fun handle_options :: "'x pbs_env \<Rightarrow> (string \<times> pyval) list \<Rightarrow> 'x stateful" where
  \<comment> \<open>\<open>for option, value in options.__dict__.items(): if value: ...\<close>\<close>
  "handle_options E [] self = Inr self"
| "handle_options E ((option, value) # items) self =
     (if truthy value
      then (case handle_option E option value self of
              Inl e \<Rightarrow> Inl e
            | Inr self' \<Rightarrow> handle_options E items self')
      else handle_options E items self)"

definition parse_args :: "'x pbs_env \<Rightarrow> string \<Rightarrow> 'x stateful" where
  \<comment> \<open>\<open>arg_parser E\<close> stands for \<open>convert_arg_line_to_args\<close>, \<open>parse_known_args\<close>
      and the items of \<open>options.__dict__\<close>: argparse is a library\<close>
  "parse_args E option_line self =
     (case arg_parser E option_line of
        Inl e \<Rightarrow> Inl (e, self\<lparr>the_events := []\<rparr>)
      | Inr items \<Rightarrow> handle_options E items (self\<lparr>the_events := []\<rparr>))"

definition events_after :: "(error \<times> 'x parser) + 'x parser \<Rightarrow> pbs_event list" where
  \<comment> \<open>the property \<open>events\<close> read after a call, returned or raised\<close>
  "events_after r = (case r of Inl (e, self) \<Rightarrow> the_events self | Inr self \<Rightarrow> the_events self)"

definition sample_env :: "unit pbs_env" where
  \<comment> \<open>an environment to run \<open>parse_args\<close> in: the converters as the specification
      describes them, and stand-ins for the libraries (argparse reduced to the two lines
      \<open>-l value\<close> and \<open>-N value\<close>, exiting on anything else)\<close>
  "sample_env =
     \<lparr>utils = spec_utils,
      validate_email = (\<lambda>address. CHR ''@'' \<in> set address),
      arg_parser = (\<lambda>line.
        if startswith line ''-l '' then Inr [(''l'', PList [drop 3 line])]
        else if startswith line ''-N '' then Inr [(''N'', PStr (drop 3 line))]
        else Inl SystemExit),
      add_resource_specs = (\<lambda>resource_spec j. Inr j)\<rparr>"

definition new_job :: "unit job" where
  "new_job =
     \<lparr>project = None, queue = None, join = None, keep = None, mail_events = None,
      mail_addresses = None, name = None, other = ()\<rparr>"

section \<open>Properties\<close>

subsection \<open>Splitting, prefixes and digits\<close>

lemma split_on_nonempty: "split_on sep s \<noteq> []"
  by (induction s) (auto split: list.splits)

lemma split_on_no_sep: "sep \<notin> set s \<Longrightarrow> split_on sep s = [s]"
  by (induction s) auto

lemma split_on_prefix: "sep \<notin> set p \<Longrightarrow> split_on sep (p @ sep # r) = p # split_on sep r"
  by (induction p) auto

lemma split_on_append: "split_on sep (a @ sep # b) = split_on sep a @ split_on sep b"
  by (induction a) (auto split: list.splits simp: split_on_nonempty)

lemma split_on_single: "split_on sep s = [v] \<Longrightarrow> v = s \<and> sep \<notin> set s"
  by (induction s arbitrary: v) (auto split: if_splits list.splits simp: split_on_nonempty)

lemma startswithD: "startswith s p \<Longrightarrow> s = p @ drop (length p) s"
  unfolding startswith_def by (metis append_take_drop_id)

lemma digit_val_range: "digit_char c \<Longrightarrow> 0 \<le> digit_val c \<and> digit_val c \<le> 9"
  unfolding digit_char_def digit_val_def by auto

lemma foldl_digits_nonneg:
  "list_all digit_char s \<Longrightarrow> 0 \<le> a \<Longrightarrow> 0 \<le> foldl (\<lambda>a c. 10 * a + digit_val c) a s"
proof (induction s arbitrary: a)
  case Nil
  then show ?case by simp
next
  case (Cons c s)
  from Cons.prems have "0 \<le> digit_val c" using digit_val_range by simp
  with Cons.prems have "0 \<le> 10 * a + digit_val c" by simp
  with Cons show ?case by simp
qed

lemma int_of_digits_nonneg: "isdigit s \<Longrightarrow> 0 \<le> int_of_digits s"
  by (simp add: isdigit_def int_of_digits_def foldl_digits_nonneg)

lemmas eval_defs =
  check_l_def check_l_val_str_def sub_clauses_def strip_def isspace_def check_l_val_def
  startswith_def split_once_def check_l_node_spec_def check_l_spec_str_def isdigit_def
  digit_char_def int_of_digits_def digit_val_def reg_event_def match_size_def
  match_size_anchored_def events_of_def raised_def

subsection \<open>Malformed sub-clauses with a second \<open>=\<close>\<close>

text \<open>
  C1. The claim: no malformed sub-clause makes \<open>check_l\<close> raise, in particular not
  \<open>mem=1=2\<close> or \<open>walltime=1=2\<close>. The code unpacks \<open>val.split('=')\<close> into two names
  in the \<open>walltime=\<close>/\<open>cput=\<close> and \<open>mem=\<close>/\<open>pmem=\<close> branches, so a value with a
  second \<open>=\<close> raises \<open>ValueError\<close>, whatever the converters are, and nothing is
  recorded. (The \<open>nodes=\<close> branch splits with \<open>split('=', 1)\<close> and does not.)
\<close>

theorem check_l_second_equals_raises:
  "check_l U [''mem=1=2''] [] = Inl (ValueError, [])
   \<and> check_l U [''walltime=1=2''] [] = Inl (ValueError, [])"
  by (simp add: eval_defs)

subsection \<open>The size pattern is not anchored at its end\<close>

text \<open>
  C2. The claim: a \<open>mem=\<close>/\<open>pmem=\<close> value sets the attribute exactly when it matches
  \<open>^(\d+)([kmgt])[bw]$\<close>, and \<open>mem=4gbx\<close> gives an \<open>invalid_mem_format\<close> event. The
  code matches \<open>(\d+)([kmgt])[bw]\<close> with \<open>re.match\<close>, which anchors the start only:
  \<open>mem=4gbx\<close> sets \<open>mem\<close> to the bytes of 4g and records no event, although the
  anchored pattern rejects \<open>4gbx\<close>.
\<close>

theorem check_l_mem_trailing_accepted:
  "check_l U [''mem=4gbx''] [] = Inr ([''mem'' \<mapsto> RInt (size2bytes U 4 ''g'')], [])
   \<and> match_size_anchored ''4gbx'' = None"
  by (simp add: eval_defs)

subsection \<open>Events are only appended: a call seen from an earlier state\<close>

lemma frame_frame: "frame f e (frame g e1 r) = frame (f \<circ> g) (e @ e1) r"
  by (auto simp: frame_def split: sum.splits)

lemma frame_id_nil [simp]: "frame (\<lambda>x. x) [] r = r"
  by (auto simp: frame_def split: sum.splits)

lemma for_each_append:
  "for_each body (xs @ ys) st =
     (case for_each body xs st of Inl e \<Rightarrow> Inl e | Inr st' \<Rightarrow> for_each body ys st')"
  by (induction xs arbitrary: st) (auto split: sum.splits)

lemma for_each_events_frame:
  assumes body: "\<And>x s e. body x (s, e) = frame (\<lambda>x. x) e (body x (s, []))"
  shows "for_each body xs (s, e) = frame (\<lambda>x. x) e (for_each body xs (s, []))"
proof (induction xs arbitrary: s e)
  case Nil
  show ?case by (simp add: frame_def)
next
  case (Cons x xs)
  show ?case
  proof (cases "body x (s, [])")
    case (Inl a)
    then show ?thesis using body [of x s e] by (cases a) (simp add: frame_def)
  next
    case (Inr b)
    obtain s1 e1 where b: "b = (s1, e1)" by (cases b)
    have "for_each body (x # xs) (s, e) = for_each body xs (s1, e @ e1)"
      using body [of x s e] Inr b by (simp add: frame_def)
    also have "\<dots> = frame (\<lambda>x. x) (e @ e1) (for_each body xs (s1, []))"
      by (rule Cons.IH)
    also have "\<dots> = frame (\<lambda>x. x) e (frame (\<lambda>x. x) e1 (for_each body xs (s1, [])))"
      by (simp add: frame_frame comp_def)
    also have "\<dots> = frame (\<lambda>x. x) e (for_each body xs (s1, e1))"
      using Cons.IH [of s1 e1] by simp
    also have "\<dots> = frame (\<lambda>x. x) e (for_each body (x # xs) (s, []))"
      using Inr b by simp
    finally show ?thesis .
  qed
qed

lemma for_each_state_frame:
  assumes assoc: "\<And>a b c. op (op a b) c = op a (op b c)"
    and unit: "\<And>a. op a z = a"
    and body: "\<And>x s e. body x (s, e) = frame (op s) e (body x (z, []))"
  shows "for_each body xs (s, e) = frame (op s) e (for_each body xs (z, []))"
proof (induction xs arbitrary: s e)
  case Nil
  show ?case by (simp add: frame_def unit)
next
  case (Cons x xs)
  show ?case
  proof (cases "body x (z, [])")
    case (Inl a)
    then show ?thesis using body [of x s e] by (cases a) (simp add: frame_def)
  next
    case (Inr b)
    obtain s1 e1 where b: "b = (s1, e1)" by (cases b)
    have comp: "op s \<circ> op s1 = op (op s s1)"
      by (rule ext) (simp add: assoc)
    have "for_each body (x # xs) (s, e) = for_each body xs (op s s1, e @ e1)"
      using body [of x s e] Inr b by (simp add: frame_def)
    also have "\<dots> = frame (op (op s s1)) (e @ e1) (for_each body xs (z, []))"
      by (rule Cons.IH)
    also have "\<dots> = frame (op s) e (frame (op s1) e1 (for_each body xs (z, [])))"
      by (simp add: frame_frame comp)
    also have "\<dots> = frame (op s) e (for_each body xs (s1, e1))"
      using Cons.IH [of s1 e1] by simp
    also have "\<dots> = frame (op s) e (for_each body (x # xs) (z, []))"
      using Inr b by simp
    finally show ?thesis .
  qed
qed

lemma check_l_spec_str_frame:
  "check_l_spec_str t (ns, e) = frame (\<lambda>x. x) e (check_l_spec_str t (ns, []))"
  by (simp add: check_l_spec_str_def frame_def reg_event_def
      split: list.splits option.splits nval.splits)

lemma spec_strs_frame:
  "for_each check_l_spec_str ts (ns, e) = frame (\<lambda>x. x) e (for_each check_l_spec_str ts (ns, []))"
  by (rule for_each_events_frame) (rule check_l_spec_str_frame)

lemma check_l_node_spec_frame:
  "check_l_node_spec c (nss, e) = frame ((@) nss) e (check_l_node_spec c ([], []))"
proof (cases "split_on CHR '':'' c")
  case Nil
  then show ?thesis by (simp add: split_on_nonempty)
next
  case (Cons first others)
  show ?thesis
    unfolding check_l_node_spec_def
    by (simp add: Cons spec_strs_frame [of others _ e] frame_def split: sum.splits)
qed

lemma node_specs_frame:
  "for_each check_l_node_spec cs (nss, e) = frame ((@) nss) e (for_each check_l_node_spec cs ([], []))"
  by (rule for_each_state_frame) (simp_all add: check_l_node_spec_frame [symmetric])

lemma check_l_val_frame:
  "check_l_val U val (rs, e) = frame ((++) rs) e (check_l_val U val (Map.empty, []))"
  unfolding check_l_val_def
  by (simp add: node_specs_frame [of _ "[]" e] frame_def reg_event_def
      split: list.splits option.splits sum.splits)

lemma vals_frame:
  "for_each (check_l_val U) vs (rs, e) = frame ((++) rs) e (for_each (check_l_val U) vs (Map.empty, []))"
  by (rule for_each_state_frame) (simp_all add: check_l_val_frame [symmetric])

lemma check_l_loop:
  "for_each (check_l_val_str U) (map strip vals) st = for_each (check_l_val U) (all_sub_clauses vals) st"
  by (induction vals arbitrary: st)
     (auto simp: all_sub_clauses_def check_l_val_str_def for_each_append split: sum.splits)

lemma check_l_flat: "check_l U vals e = for_each (check_l_val U) (all_sub_clauses vals) (Map.empty, e)"
  by (simp add: check_l_def check_l_loop)

lemma check_l_frame: "check_l U vals e = frame (\<lambda>x. x) e (check_l U vals [])"
proof -
  have "check_l U vals e = frame ((++) Map.empty) e (check_l U vals [])"
    unfolding check_l_flat by (rule vals_frame)
  moreover have "(++) (Map.empty :: resource_spec) = (\<lambda>x. x)"
    by (rule ext) simp
  ultimately show ?thesis by simp
qed

subsection \<open>Node clauses\<close>

lemma startswithE:
  assumes "startswith s p"
  obtains r where "s = p @ r"
  using assms startswithD by blast

lemma number_token_split:
  assumes pre: "startswith t ''ppn='' \<or> startswith t ''gpus=''"
    and split: "split_on CHR ''='' t = [key, value]"
  shows "(key = ''ppn'' \<or> key = ''gpus'') \<and> t = key @ ''='' @ value
         \<and> CHR ''='' \<notin> set value \<and> number_of t = value"
  using pre
proof
  assume "startswith t ''ppn=''"
  then obtain r where t: "t = ''ppn='' @ r" by (rule startswithE)
  have "key = ''ppn'' \<and> split_on CHR ''='' r = [value]"
    using split t by auto
  then have "key = ''ppn'' \<and> value = r \<and> CHR ''='' \<notin> set r"
    using split_on_single [of "CHR ''=''" r "value"] by simp
  moreover have "number_of t = r"
    by (simp add: t number_of_def)
  ultimately show ?thesis using t by simp
next
  assume "startswith t ''gpus=''"
  then obtain r where t: "t = ''gpus='' @ r" by (rule startswithE)
  have "key = ''gpus'' \<and> split_on CHR ''='' r = [value]"
    using split t by auto
  then have "key = ''gpus'' \<and> value = r \<and> CHR ''='' \<notin> set r"
    using split_on_single [of "CHR ''=''" r "value"] by simp
  moreover have "number_of t = r"
    by (simp add: t number_of_def)
  ultimately show ?thesis using t by simp
qed

lemma check_l_spec_str_Inr:
  assumes "check_l_spec_str t (ns, e) = Inr (ns', e')"
  shows "ns' ''nodes'' = ns ''nodes'' \<and> ns' ''host'' = ns ''host''
         \<and> length e' = length e + (if no_number t then 1 else 0)"
proof (cases "startswith t ''ppn='' \<or> startswith t ''gpus=''")
  case True
  with assms obtain key "value" where split: "split_on CHR ''='' t = [key, value]"
    by (auto simp: check_l_spec_str_def split: list.splits)
  from number_token_split [OF True split]
  have key: "key = ''ppn'' \<or> key = ''gpus''" and num: "number_of t = value" by blast+
  from assms True split key num show ?thesis
    by (auto simp: check_l_spec_str_def no_number_def reg_event_def split: if_splits)
next
  case False
  with assms show ?thesis
    by (auto simp: check_l_spec_str_def no_number_def split: option.splits nval.splits)
qed

lemma spec_strs_Inr:
  "for_each check_l_spec_str ts (ns, e) = Inr (ns', e') \<Longrightarrow>
     ns' ''nodes'' = ns ''nodes'' \<and> ns' ''host'' = ns ''host''
     \<and> length e' = length e + length (filter no_number ts)"
proof (induction ts arbitrary: ns e)
  case Nil
  then show ?case by simp
next
  case (Cons t ts)
  from Cons.prems obtain ns1 e1 where
    step: "check_l_spec_str t (ns, e) = Inr (ns1, e1)"
    and rest: "for_each check_l_spec_str ts (ns1, e1) = Inr (ns', e')"
    by (auto split: sum.splits)
  from check_l_spec_str_Inr [OF step] Cons.IH [OF rest] show ?case by simp
qed

lemma check_l_node_spec_Inr:
  assumes "check_l_node_spec c (nss, e) = Inr (nss', e')"
  shows "\<exists>ns. nss' = nss @ [ns] \<and> count_and_host c ns
           \<and> length e' = length e + length (no_number_tokens c)"
proof -
  obtain first others where split: "split_on CHR '':'' c = first # others"
    using split_on_nonempty [of "CHR '':''" c] by (cases "split_on CHR '':'' c") auto
  let ?ns0 = "if isdigit first
      then [''features'' \<mapsto> NList [], ''nodes'' \<mapsto> NInt (int_of_digits first)]
      else [''features'' \<mapsto> NList [], ''nodes'' \<mapsto> NInt 1, ''host'' \<mapsto> NStr first]"
  from assms split obtain ns where
    loop: "for_each check_l_spec_str others (?ns0, e) = Inr (ns, e')"
    and nss': "nss' = nss @ [ns]"
    by (auto simp: check_l_node_spec_def split: sum.splits)
  from spec_strs_Inr [OF loop]
  have "ns ''nodes'' = ?ns0 ''nodes''" and "ns ''host'' = ?ns0 ''host''"
    and len: "length e' = length e + length (filter no_number others)" by simp_all
  then have "count_and_host c ns"
    by (simp add: count_and_host_def leading_token_def split)
  moreover have "no_number_tokens c = filter no_number others"
    by (simp add: no_number_tokens_def split)
  ultimately show ?thesis using nss' len by simp
qed

lemma node_specs_Inr:
  "for_each check_l_node_spec cs (nss, e) = Inr (nss', e') \<Longrightarrow>
     \<exists>new. nss' = nss @ new \<and> list_all2 count_and_host cs new
       \<and> length e' = length e + length (concat (map no_number_tokens cs))"
proof (induction cs arbitrary: nss e)
  case Nil
  then show ?case by simp
next
  case (Cons c cs)
  from Cons.prems obtain nss1 e1 where
    step: "check_l_node_spec c (nss, e) = Inr (nss1, e1)"
    and rest: "for_each check_l_node_spec cs (nss1, e1) = Inr (nss', e')"
    by (auto split: sum.splits)
  from check_l_node_spec_Inr [OF step] obtain ns where
    ns: "nss1 = nss @ [ns]" "count_and_host c ns"
        "length e1 = length e + length (no_number_tokens c)" by blast
  from Cons.IH [OF rest] obtain new where
    new: "nss' = nss1 @ new" "list_all2 count_and_host cs new"
         "length e' = length e1 + length (concat (map no_number_tokens cs))" by blast
  have "nss' = nss @ (ns # new) \<and> list_all2 count_and_host (c # cs) (ns # new)
        \<and> length e' = length e + length (concat (map no_number_tokens (c # cs)))"
    using ns new by simp
  then show ?case by blast
qed

lemma nodes_prefix:
  assumes "startswith val ''nodes=''"
  shows "\<not> startswith val ''walltime='' \<and> \<not> startswith val ''cput=''
         \<and> \<not> startswith val ''mem='' \<and> \<not> startswith val ''pmem=''
         \<and> split_once CHR ''='' val = [''nodes'', drop 6 val]"
proof -
  from assms obtain r where val: "val = ''nodes='' @ r" by (rule startswithE)
  show ?thesis
    by (simp add: val startswith_def split_once_def)
qed

lemma check_l_val_nodes_Inr:
  assumes nodes: "startswith val ''nodes=''"
    and ret: "check_l_val U val (rs, e) = Inr (rs', e')"
  shows "\<exists>nss. rs' = rs(''nodes'' \<mapsto> RNodes nss) \<and> list_all2 count_and_host (node_clauses val) nss
           \<and> length e' = length e + length (concat (map no_number_tokens (node_clauses val)))"
proof -
  note p = nodes_prefix [OF nodes]
  from ret p nodes obtain nss where
    loop: "for_each check_l_node_spec (node_clauses val) ([], e) = Inr (nss, e')"
    and rs': "rs' = rs(''nodes'' \<mapsto> RNodes nss)"
    by (auto simp: check_l_val_def node_clauses_def split: sum.splits)
  from node_specs_Inr [OF loop] rs' show ?thesis by auto
qed

subsection \<open>Counts, numbers and unknown sub-clauses\<close>

lemma count_and_host_in_range: "count_and_host c ns \<Longrightarrow> count_in_range c ns"
  using int_of_digits_nonneg [of "leading_token c"]
  by (auto simp: count_and_host_def count_in_range_def split: if_splits)

text \<open>
  C3. The claim: every node specification has a count of at least 1, also when the first
  token of the node clause is \<open>0\<close>. The code takes an all-digit first token as the
  count without looking at its value, so \<open>nodes=0\<close> gives the count 0.
\<close>

theorem nodes_zero_count_counterexample:
  "check_l spec_utils [''nodes=0''] [] =
     Inr ([''nodes'' \<mapsto> RNodes [[''features'' \<mapsto> NList [], ''nodes'' \<mapsto> NInt 0]]], [])"
  by (simp add: eval_defs)

text \<open>
  C3, as the code has it: for every \<open>nodes=\<close> sub-clause that \<open>check_l\<close> gets
  through, each node specification has an integer count that is never negative, and
  that is at least 1 unless the first token of its node clause is a number denoting zero
  (then the count is 0).
\<close>

theorem nodes_count_in_range:
  assumes "startswith val ''nodes=''"
    and "check_l_val U val (resource_spec, events) = Inr (resource_spec', events')"
  shows "list_all2 count_in_range (node_clauses val) (nodes_of resource_spec')"
proof -
  from check_l_val_nodes_Inr [OF assms] obtain nss where
    rs': "resource_spec' = resource_spec(''nodes'' \<mapsto> RNodes nss)"
    and all: "list_all2 count_and_host (node_clauses val) nss" by blast
  from all have "list_all2 count_in_range (node_clauses val) nss"
    by (rule list_all2_mono) (rule count_and_host_in_range)
  with rs' show ?thesis by (simp add: nodes_of_def)
qed

theorem nodes_count_in_range_witness:
  "startswith ''nodes=00+3:ppn=2'' ''nodes=''
   \<and> check_l_val spec_utils ''nodes=00+3:ppn=2'' (Map.empty, []) =
       Inr ([''nodes'' \<mapsto> RNodes
              [[''features'' \<mapsto> NList [], ''nodes'' \<mapsto> NInt 0],
               [''features'' \<mapsto> NList [], ''nodes'' \<mapsto> NInt 3, ''ppn'' \<mapsto> NInt 2]]], [])
   \<and> list_all2 count_in_range [''00'', ''3:ppn=2'']
         [[''features'' \<mapsto> NList [], ''nodes'' \<mapsto> NInt 0],
          [''features'' \<mapsto> NList [], ''nodes'' \<mapsto> NInt 3, ''ppn'' \<mapsto> NInt 2]]"
proof -
  let ?val = "''nodes=00+3:ppn=2''"
  let ?rs = "[''nodes'' \<mapsto> RNodes
              [[''features'' \<mapsto> NList [], ''nodes'' \<mapsto> NInt 0],
               [''features'' \<mapsto> NList [], ''nodes'' \<mapsto> NInt 3, ''ppn'' \<mapsto> NInt 2]]]"
  have h1: "startswith ?val ''nodes=''"
    by (simp add: startswith_def)
  have h2: "check_l_val spec_utils ?val (Map.empty, []) = Inr (?rs, [])"
    by (simp add: eval_defs)
  have "list_all2 count_in_range (node_clauses ?val) (nodes_of ?rs)"
    by (rule nodes_count_in_range [OF h1 h2])
  then show ?thesis using h1 h2 by (simp add: node_clauses_def nodes_of_def)
qed

text \<open>
  C6. The claim: a token \<open>ppn=<value>\<close> or \<open>gpus=<value>\<close> after the first sets the
  field when the value is all digits, and otherwise records one \<open><key>_no_number\<close>
  event with the value. The code unpacks \<open>spec_str.split('=')\<close> into two names, so
  a value that holds a \<open>=\<close> (which is not all digits) raises \<open>ValueError\<close>
  instead of recording the event.
\<close>

theorem check_l_ppn_second_equals_raises:
  "check_l U [''nodes=2:ppn=a=b''] [] = Inl (ValueError, [])"
  by (simp add: eval_defs)

lemma check_l_spec_str_number:
  assumes key: "key = ''ppn'' \<or> key = ''gpus''" and "value": "CHR ''='' \<notin> set value"
  shows "check_l_spec_str (key @ ''='' @ value) (node_spec, events) =
     (if isdigit value
      then Inr (node_spec(key \<mapsto> NInt (int_of_digits value)), events)
      else Inr (node_spec, events @ [\<lparr>event = key @ ''_no_number'', extra = [(''number'', value)]\<rparr>]))"
proof -
  have "split_on CHR ''='' (key @ ''='' @ value) = [key, value]"
    using key "value" split_on_prefix [of "CHR ''=''" key "value"]
    by (auto simp: split_on_no_sep)
  moreover have "startswith (key @ ''='' @ value) ''ppn='' \<or> startswith (key @ ''='' @ value) ''gpus=''"
    using key by (auto simp: startswith_def)
  ultimately show ?thesis
    by (simp add: check_l_spec_str_def reg_event_def)
qed

text \<open>
  C8. For every sub-clause that starts with none of \<open>walltime=\<close>, \<open>cput=\<close>,
  \<open>mem=\<close>, \<open>pmem=\<close>, \<open>nodes=\<close>, the parser sets no attribute (the dictionary is
  unchanged) and records exactly one event, \<open>unknown_resource_spec\<close>, whose \<open>spec\<close>
  is the sub-clause.
\<close>

theorem unknown_resource_spec_event:
  assumes "\<not> startswith val ''walltime=''" and "\<not> startswith val ''cput=''"
    and "\<not> startswith val ''mem=''" and "\<not> startswith val ''pmem=''"
    and "\<not> startswith val ''nodes=''"
  shows "check_l_val U val (resource_spec, events) =
     Inr (resource_spec,
          events @ [\<lparr>event = ''unknown_resource_spec'', extra = [(''spec'', val)]\<rparr>])"
  using assms by (simp add: check_l_val_def reg_event_def)

theorem unknown_resource_spec_event_witness:
  "\<not> startswith ''foo=bar'' ''walltime='' \<and> \<not> startswith ''foo=bar'' ''cput=''
   \<and> \<not> startswith ''foo=bar'' ''mem='' \<and> \<not> startswith ''foo=bar'' ''pmem=''
   \<and> \<not> startswith ''foo=bar'' ''nodes=''
   \<and> check_l_val spec_utils ''foo=bar'' (Map.empty, []) =
       Inr (Map.empty, [\<lparr>event = ''unknown_resource_spec'', extra = [(''spec'', ''foo=bar'')]\<rparr>])
   \<and> check_l spec_utils [''foo=bar''] [] =
       Inr (Map.empty, [\<lparr>event = ''unknown_resource_spec'', extra = [(''spec'', ''foo=bar'')]\<rparr>])"
proof -
  have h: "\<not> startswith ''foo=bar'' ''walltime=''" "\<not> startswith ''foo=bar'' ''cput=''"
    "\<not> startswith ''foo=bar'' ''mem=''" "\<not> startswith ''foo=bar'' ''pmem=''"
    "\<not> startswith ''foo=bar'' ''nodes=''"
    by (simp_all add: startswith_def)
  have step: "check_l_val spec_utils ''foo=bar'' (Map.empty, []) =
       Inr (Map.empty, [\<lparr>event = ''unknown_resource_spec'', extra = [(''spec'', ''foo=bar'')]\<rparr>])"
    using unknown_resource_spec_event [OF h, of spec_utils Map.empty "[]"] by simp
  have "check_l spec_utils [''foo=bar''] [] = check_l_val spec_utils ''foo=bar'' (Map.empty, [])"
    by (simp add: check_l_def check_l_val_str_def sub_clauses_def strip_def isspace_def
        split: sum.splits)
  with h step show ?thesis by simp
qed

lemma split_on_trailing: "split_on sep (s @ [sep]) = split_on sep s @ [[]]"
  using split_on_append [of sep s "[]"] by simp

subsection \<open>Repeated attributes\<close>

lemma frame_Inr:
  "frame f e r = Inr (x, e') \<Longrightarrow> \<exists>y new. r = Inr (y, new) \<and> x = f y \<and> e' = e @ new"
  by (auto simp: frame_def split: sum.splits)

lemma check_l_val_assigned:
  assumes ret: "check_l_val U val (rs, e) = Inr (rs', e')"
  shows "rs' k = (case assigned U val k of None \<Rightarrow> rs k | Some x \<Rightarrow> Some x)"
proof -
  from ret have "frame ((++) rs) e (check_l_val U val (Map.empty, [])) = Inr (rs', e')"
    by (simp add: check_l_val_frame [symmetric])
  from frame_Inr [OF this] obtain d new where
    alone: "check_l_val U val (Map.empty, []) = Inr (d, new)" and rs': "rs' = rs ++ d" by blast
  from alone have "assigned U val k = d k" by (simp add: assigned_def)
  with rs' show ?thesis by (simp add: map_add_def)
qed

lemma vals_keep:
  "for_each (check_l_val U) ws (rs, e) = Inr (rs', e') \<Longrightarrow>
     \<forall>w \<in> set ws. assigned U w k = None \<Longrightarrow> rs' k = rs k"
proof (induction ws arbitrary: rs e)
  case Nil
  then show ?case by simp
next
  case (Cons w ws)
  from Cons.prems(1) obtain rs1 e1 where
    step: "check_l_val U w (rs, e) = Inr (rs1, e1)"
    and rest: "for_each (check_l_val U) ws (rs1, e1) = Inr (rs', e')"
    by (auto split: sum.splits)
  from check_l_val_assigned [OF step, of k] Cons.prems(2) have "rs1 k = rs k" by simp
  moreover from Cons.IH [OF rest] Cons.prems(2) have "rs' k = rs1 k" by simp
  ultimately show ?case by simp
qed

text \<open>
  C7. When several sub-clauses of one parse set the same attribute name, the resulting
  resource specification (a dictionary: one value for a name at most) holds the value of
  the last of them. Here: if \<open>check_l\<close> returns, a sub-clause \<open>val\<close> of the parse sets
  \<open>attr_name\<close> to \<open>x\<close>, and no sub-clause after it sets \<open>attr_name\<close>, then the
  result holds \<open>x\<close> under \<open>attr_name\<close>, whatever the sub-clauses before \<open>val\<close> set.
\<close>

theorem last_occurrence_wins:
  assumes "check_l U vals events = Inr (resource_spec, events')"
    and "all_sub_clauses vals = before @ val # after"
    and "assigned U val attr_name = Some x"
    and "\<forall>w \<in> set after. assigned U w attr_name = None"
  shows "resource_spec attr_name = Some x"
proof -
  from assms(1,2) have "for_each (check_l_val U) (before @ val # after) (Map.empty, events)
      = Inr (resource_spec, events')"
    by (simp add: check_l_flat)
  then obtain rs1 e1 rs2 e2 where
    step: "check_l_val U val (rs1, e1) = Inr (rs2, e2)"
    and rest: "for_each (check_l_val U) after (rs2, e2) = Inr (resource_spec, events')"
    by (auto simp: for_each_append split: sum.splits)
  from check_l_val_assigned [OF step, of attr_name] assms(3) have "rs2 attr_name = Some x"
    by simp
  with vals_keep [OF rest assms(4)] show ?thesis by simp
qed

theorem last_occurrence_wins_witness:
  "check_l spec_utils [''mem=1gb,mem=2gb,walltime=60''] [] =
     Inr ([''mem'' \<mapsto> RInt 1073741824, ''mem'' \<mapsto> RInt 2147483648, ''walltime'' \<mapsto> RInt 60], [])
   \<and> all_sub_clauses [''mem=1gb,mem=2gb,walltime=60''] = [''mem=1gb''] @ ''mem=2gb'' # [''walltime=60'']
   \<and> assigned spec_utils ''mem=1gb'' ''mem'' = Some (RInt 1073741824)
   \<and> assigned spec_utils ''mem=2gb'' ''mem'' = Some (RInt 2147483648)
   \<and> assigned spec_utils ''walltime=60'' ''mem'' = None
   \<and> [''mem'' \<mapsto> RInt 1073741824, ''mem'' \<mapsto> RInt 2147483648, ''walltime'' \<mapsto> RInt 60] ''mem''
       = Some (RInt 2147483648)"
proof -
  let ?vals = "[''mem=1gb,mem=2gb,walltime=60'']"
  let ?rs = "[''mem'' \<mapsto> RInt 1073741824, ''mem'' \<mapsto> RInt 2147483648, ''walltime'' \<mapsto> RInt 60]"
  have run: "check_l spec_utils ?vals [] = Inr (?rs, [])"
    by (simp add: eval_defs spec_utils_def size_to_bytes_def duration_to_seconds_def)
  have subs: "all_sub_clauses ?vals = [''mem=1gb''] @ ''mem=2gb'' # [''walltime=60'']"
    by (simp add: all_sub_clauses_def sub_clauses_def strip_def isspace_def)
  have a1: "assigned spec_utils ''mem=1gb'' ''mem'' = Some (RInt 1073741824)"
    by (simp add: assigned_def eval_defs spec_utils_def size_to_bytes_def)
  have a2: "assigned spec_utils ''mem=2gb'' ''mem'' = Some (RInt 2147483648)"
    by (simp add: assigned_def eval_defs spec_utils_def size_to_bytes_def)
  have a3: "assigned spec_utils ''walltime=60'' ''mem'' = None"
    by (simp add: assigned_def eval_defs spec_utils_def duration_to_seconds_def)
  then have after: "\<forall>w \<in> set [''walltime=60'']. assigned spec_utils w ''mem'' = None"
    by simp
  have "?rs ''mem'' = Some (RInt 2147483648)"
    by (rule last_occurrence_wins [OF run subs a2 after])
  with run subs a1 a2 a3 show ?thesis by simp
qed

subsection \<open>\<open>parse_args\<close> starts from an empty event list\<close>

text \<open>
  C9. \<open>parse_args\<close> empties the event list before it handles any option, so the events
  read after a call are those of that call alone. Here: the whole outcome of a call
  (the parser it leaves, returned or raised, with its events) is the same from any two
  parsers that hold the same job, whatever events an earlier parse left in either; in
  particular it is the outcome from a parser with no events.
\<close>

theorem parse_args_no_carryover:
  assumes "the_job self = the_job self'"
  shows "parse_args E option_line self = parse_args E option_line self'"
proof -
  from assms have reset: "self\<lparr>the_events := []\<rparr> = self'\<lparr>the_events := []\<rparr>"
    by (cases self, cases self') simp
  show ?thesis by (simp only: parse_args_def reset)
qed

theorem parse_args_no_carryover_witness:
  "parse_args sample_env ''-l foo'' \<lparr>the_job = new_job, the_events = []\<rparr> =
     Inr \<lparr>the_job = new_job,
          the_events = [\<lparr>event = ''unknown_resource_spec'', extra = [(''spec'', ''foo'')]\<rparr>]\<rparr>
   \<and> the_job \<lparr>the_job = new_job,
          the_events = [\<lparr>event = ''unknown_resource_spec'', extra = [(''spec'', ''foo'')]\<rparr>]\<rparr>
       = the_job \<lparr>the_job = new_job, the_events = []\<rparr>
   \<and> parse_args sample_env ''-N job1''
         \<lparr>the_job = new_job,
          the_events = [\<lparr>event = ''unknown_resource_spec'', extra = [(''spec'', ''foo'')]\<rparr>]\<rparr>
       = parse_args sample_env ''-N job1'' \<lparr>the_job = new_job, the_events = []\<rparr>
   \<and> events_after (parse_args sample_env ''-N job1''
         \<lparr>the_job = new_job,
          the_events = [\<lparr>event = ''unknown_resource_spec'', extra = [(''spec'', ''foo'')]\<rparr>]\<rparr>) = []"
proof -
  let ?p0 = "\<lparr>the_job = new_job, the_events = []\<rparr>"
  let ?p1 = "\<lparr>the_job = new_job,
          the_events = [\<lparr>event = ''unknown_resource_spec'', extra = [(''spec'', ''foo'')]\<rparr>]\<rparr>"
  have first: "parse_args sample_env ''-l foo'' ?p0 = Inr ?p1"
    by (simp add: parse_args_def sample_env_def handle_option_def truthy_def check_l_self_def
        eval_defs)
  have same: "the_job ?p1 = the_job ?p0" by simp
  have eq: "parse_args sample_env ''-N job1'' ?p1 = parse_args sample_env ''-N job1'' ?p0"
    by (rule parse_args_no_carryover [OF same])
  have "events_after (parse_args sample_env ''-N job1'' ?p0) = []"
    by (simp add: parse_args_def sample_env_def handle_option_def truthy_def stripped_def
        check_N_def match_job_name_def alpha_char_def word_char_def digit_char_def at_end_def
        strip_def isspace_def startswith_def events_after_def register_def reg_event_def)
  with first same eq show ?thesis by simp
qed

subsection \<open>The one exception of a \<open>nodes=\<close> sub-clause\<close>

text \<open>
  A \<open>nodes=\<close> sub-clause raises nothing but \<open>ValueError\<close>, and only when a token
  after the first of some node clause is \<open>ppn=\<close> or \<open>gpus=\<close> with a second \<open>=\<close>.
\<close>

lemma number_token_splits:
  assumes pre: "startswith t ''ppn='' \<or> startswith t ''gpus=''"
    and one: "CHR ''='' \<notin> set (number_of t)"
  shows "\<exists>key. split_on CHR ''='' t = [key, number_of t]"
  using pre
proof
  assume "startswith t ''ppn=''"
  then obtain r where t: "t = ''ppn='' @ r" by (rule startswithE)
  then have "number_of t = r" by (simp add: number_of_def)
  with one t show ?thesis by (simp add: split_on_no_sep)
next
  assume "startswith t ''gpus=''"
  then obtain r where t: "t = ''gpus='' @ r" by (rule startswithE)
  then have "number_of t = r" by (simp add: number_of_def)
  with one t show ?thesis by (simp add: split_on_no_sep)
qed

lemma check_l_spec_str_Inl:
  assumes "check_l_spec_str t (ns, e) = Inl (x, e')" and "ns ''features'' = Some (NList fs)"
  shows "x = ValueError \<and> second_equals t"
proof (cases "startswith t ''ppn='' \<or> startswith t ''gpus=''")
  case True
  have "CHR ''='' \<in> set (number_of t)"
  proof (rule ccontr)
    assume "CHR ''='' \<notin> set (number_of t)"
    from number_token_splits [OF True this] obtain key where
      "split_on CHR ''='' t = [key, number_of t]" by blast
    with assms(1) True show False
      by (simp add: check_l_spec_str_def split: if_splits)
  qed
  moreover from assms(1) True have "x = ValueError"
    by (auto simp: check_l_spec_str_def split: list.splits if_splits)
  ultimately show ?thesis using True by (simp add: second_equals_def)
next
  case False
  with assms show ?thesis by (simp add: check_l_spec_str_def)
qed

lemma check_l_spec_str_features:
  assumes "check_l_spec_str t (ns, e) = Inr (ns', e')" and "ns ''features'' = Some (NList fs)"
  shows "\<exists>fs'. ns' ''features'' = Some (NList fs')"
proof (cases "startswith t ''ppn='' \<or> startswith t ''gpus=''")
  case True
  with assms(1) obtain key "value" where split: "split_on CHR ''='' t = [key, value]"
    by (auto simp: check_l_spec_str_def split: list.splits)
  from number_token_split [OF True split] have "key = ''ppn'' \<or> key = ''gpus''" by blast
  with assms True split show ?thesis
    by (auto simp: check_l_spec_str_def split: if_splits)
next
  case False
  with assms show ?thesis by (auto simp: check_l_spec_str_def)
qed

lemma spec_strs_Inl:
  "for_each check_l_spec_str ts (ns, e) = Inl (x, e') \<Longrightarrow> ns ''features'' = Some (NList fs) \<Longrightarrow>
     x = ValueError \<and> list_ex second_equals ts"
proof (induction ts arbitrary: ns e fs)
  case Nil
  then show ?case by simp
next
  case (Cons t ts)
  show ?case
  proof (cases "check_l_spec_str t (ns, e)")
    case (Inl a)
    with Cons.prems(1) have "check_l_spec_str t (ns, e) = Inl (x, e')" by simp
    from check_l_spec_str_Inl [OF this Cons.prems(2)] show ?thesis by simp
  next
    case (Inr b)
    obtain ns1 e1 where b: "b = (ns1, e1)" by (cases b)
    from check_l_spec_str_features [OF Inr [unfolded b] Cons.prems(2)] obtain fs' where
      "ns1 ''features'' = Some (NList fs')" by blast
    moreover from Cons.prems(1) Inr b have "for_each check_l_spec_str ts (ns1, e1) = Inl (x, e')"
      by simp
    ultimately show ?thesis using Cons.IH by auto
  qed
qed

lemma check_l_node_spec_Inl:
  assumes "check_l_node_spec c (nss, e) = Inl (x, e')"
  shows "x = ValueError \<and> list_ex second_equals (tl (split_on CHR '':'' c))"
proof -
  obtain first others where split: "split_on CHR '':'' c = first # others"
    using split_on_nonempty [of "CHR '':''" c] by (cases "split_on CHR '':'' c") auto
  let ?ns0 = "if isdigit first
      then [''features'' \<mapsto> NList [], ''nodes'' \<mapsto> NInt (int_of_digits first)]
      else [''features'' \<mapsto> NList [], ''nodes'' \<mapsto> NInt 1, ''host'' \<mapsto> NStr first]"
  from assms split have loop: "for_each check_l_spec_str others (?ns0, e) = Inl (x, e')"
    by (auto simp: check_l_node_spec_def split: sum.splits)
  have "?ns0 ''features'' = Some (NList [])" by simp
  from spec_strs_Inl [OF loop this] split show ?thesis by simp
qed

lemma node_specs_Inl:
  "for_each check_l_node_spec cs (nss, e) = Inl (x, e') \<Longrightarrow>
     x = ValueError \<and> list_ex (\<lambda>c. list_ex second_equals (tl (split_on CHR '':'' c))) cs"
proof (induction cs arbitrary: nss e)
  case Nil
  then show ?case by simp
next
  case (Cons c cs)
  show ?case
  proof (cases "check_l_node_spec c (nss, e)")
    case (Inl a)
    with Cons.prems have "check_l_node_spec c (nss, e) = Inl (x, e')" by simp
    from check_l_node_spec_Inl [OF this] show ?thesis by simp
  next
    case (Inr b)
    obtain nss1 e1 where b: "b = (nss1, e1)" by (cases b)
    from Cons.prems Inr b have "for_each check_l_node_spec cs (nss1, e1) = Inl (x, e')"
      by simp
    from Cons.IH [OF this] show ?thesis by simp
  qed
qed

lemma check_l_val_nodes_Inl:
  assumes nodes: "startswith val ''nodes=''"
    and raise: "check_l_val U val (rs, e) = Inl (x, e')"
  shows "x = ValueError
         \<and> list_ex (\<lambda>c. list_ex second_equals (tl (split_on CHR '':'' c))) (node_clauses val)"
proof -
  note p = nodes_prefix [OF nodes]
  from raise p nodes have "for_each check_l_node_spec (node_clauses val) ([], e) = Inl (x, e')"
    by (auto simp: check_l_val_def node_clauses_def split: sum.splits)
  from node_specs_Inl [OF this] show ?thesis .
qed

subsection \<open>The first token of a node clause\<close>

text \<open>
  C5. For every \<open>+\<close>-delimited node clause of a \<open>nodes=\<close> value: if its first
  \<open>:\<close>-separated token is all decimal digits, the node count is that token as an
  integer and no host is recorded; otherwise the count is 1 and the token is the host.
  Here: every \<open>nodes=\<close> sub-clause in which no later token is \<open>ppn=\<close> or \<open>gpus=\<close>
  with a second \<open>=\<close> is parsed without an exception, and the node specifications
  stored under \<open>nodes\<close> correspond one to one, in order, to its node clauses, each
  with the count and host its first token prescribes.
\<close>

theorem nodes_first_token_count_or_host:
  assumes "startswith val ''nodes=''" and "\<not> has_second_equals val"
  shows "\<exists>resource_spec' events'.
           check_l_val U val (resource_spec, events) = Inr (resource_spec', events')
           \<and> list_all2 count_and_host (node_clauses val) (nodes_of resource_spec')"
proof (cases "check_l_val U val (resource_spec, events)")
  case (Inl a)
  obtain x e' where "a = (x, e')" by (cases a)
  with Inl check_l_val_nodes_Inl [OF assms(1), of U resource_spec events x e'] assms(2)
  show ?thesis by (simp add: has_second_equals_def)
next
  case (Inr b)
  obtain rs' e' where b: "b = (rs', e')" by (cases b)
  from check_l_val_nodes_Inr [OF assms(1) Inr [unfolded b]] obtain nss where
    "rs' = resource_spec(''nodes'' \<mapsto> RNodes nss)"
    and "list_all2 count_and_host (node_clauses val) nss" by blast
  then have "list_all2 count_and_host (node_clauses val) (nodes_of rs')"
    by (simp add: nodes_of_def)
  with Inr b show ?thesis by simp
qed

theorem nodes_first_token_count_or_host_witness:
  "startswith ''nodes=2:ppn=4+node07:bigmem'' ''nodes=''
   \<and> has_second_equals ''nodes=2:ppn=4+node07:bigmem'' = False
   \<and> check_l_val spec_utils ''nodes=2:ppn=4+node07:bigmem'' (Map.empty, []) =
       Inr ([''nodes'' \<mapsto> RNodes
              [[''features'' \<mapsto> NList [], ''nodes'' \<mapsto> NInt 2, ''ppn'' \<mapsto> NInt 4],
               [''features'' \<mapsto> NList [], ''nodes'' \<mapsto> NInt 1, ''host'' \<mapsto> NStr ''node07'',
                ''features'' \<mapsto> NList [''bigmem'']]]], [])
   \<and> list_all2 count_and_host [''2:ppn=4'', ''node07:bigmem'']
         [[''features'' \<mapsto> NList [], ''nodes'' \<mapsto> NInt 2, ''ppn'' \<mapsto> NInt 4],
          [''features'' \<mapsto> NList [], ''nodes'' \<mapsto> NInt 1, ''host'' \<mapsto> NStr ''node07'',
           ''features'' \<mapsto> NList [''bigmem'']]]"
proof -
  let ?val = "''nodes=2:ppn=4+node07:bigmem''"
  let ?rs = "[''nodes'' \<mapsto> RNodes
              [[''features'' \<mapsto> NList [], ''nodes'' \<mapsto> NInt 2, ''ppn'' \<mapsto> NInt 4],
               [''features'' \<mapsto> NList [], ''nodes'' \<mapsto> NInt 1, ''host'' \<mapsto> NStr ''node07'',
                ''features'' \<mapsto> NList [''bigmem'']]]]"
  have h1: "startswith ?val ''nodes=''"
    by (simp add: startswith_def)
  have h2: "\<not> has_second_equals ?val"
    by (simp add: has_second_equals_def node_clauses_def second_equals_def startswith_def
        number_of_def)
  have run: "check_l_val spec_utils ?val (Map.empty, []) = Inr (?rs, [])"
    by (simp add: eval_defs)
  from nodes_first_token_count_or_host [OF h1 h2, of spec_utils Map.empty "[]"] run
  have "list_all2 count_and_host (node_clauses ?val) (nodes_of ?rs)" by simp
  then show ?thesis using h1 h2 run by (simp add: node_clauses_def nodes_of_def)
qed

subsection \<open>Empty sub-clauses\<close>

lemma all_sub_clauses_append:
  "all_sub_clauses (xs @ ys) = all_sub_clauses xs @ all_sub_clauses ys"
  by (simp add: all_sub_clauses_def)

lemma all_sub_clauses_Cons:
  "all_sub_clauses (x # xs) = sub_clauses (strip x) @ all_sub_clauses xs"
  by (simp add: all_sub_clauses_def)

lemma check_l_val_empty:
  "check_l_val U [] (rs, e) =
     Inr (rs, e @ [\<lparr>event = ''unknown_resource_spec'', extra = [(''spec'', [])]\<rparr>])"
  by (simp add: check_l_val_def startswith_def reg_event_def)

lemma for_each_around_empty:
  "for_each (check_l_val U) (xs @ [] # ys) st =
     (case for_each (check_l_val U) xs st of
        Inl f \<Rightarrow> Inl f
      | Inr (rs, e) \<Rightarrow>
          for_each (check_l_val U) ys
            (rs, e @ [\<lparr>event = ''unknown_resource_spec'', extra = [(''spec'', [])]\<rparr>]))"
  by (auto simp: for_each_append check_l_val_empty split: sum.splits)

text \<open>
  C10. Every empty sub-clause that splitting a \<open>-l\<close> value on \<open>,\<close> produces makes the
  parser record one \<open>unknown_resource_spec\<close> event whose \<open>spec\<close> is the empty string,
  and set no attribute. Here, for every call of \<open>check_l\<close> and every piece of the split
  of any of its values that is empty once stripped: the call is the run over the
  sub-clauses before the piece, then (unless one of those raised) that one event added
  and the dictionary left as it is, then the run over the sub-clauses after it. The
  same for the three ways the claim names, on the stripped value: an empty value, a
  trailing comma, a doubled comma.
\<close>

theorem empty_sub_clause_event:
  assumes "split_on CHR '','' (strip val_str) = before @ piece # after"
    and "strip piece = []"
  shows "check_l U (earlier @ val_str # later) events =
           (case for_each (check_l_val U) (all_sub_clauses earlier @ map strip before)
                   (Map.empty, events) of
              Inl f \<Rightarrow> Inl f
            | Inr (resource_spec, events') \<Rightarrow>
                for_each (check_l_val U) (map strip after @ all_sub_clauses later)
                  (resource_spec,
                   events' @ [\<lparr>event = ''unknown_resource_spec'', extra = [(''spec'', [])]\<rparr>]))
         \<and> check_l_val_str U [] (resource_spec, events) =
             Inr (resource_spec,
                  events @ [\<lparr>event = ''unknown_resource_spec'', extra = [(''spec'', [])]\<rparr>])
         \<and> check_l_val_str U (s @ '','') st =
             (case check_l_val_str U s st of
                Inl f \<Rightarrow> Inl f
              | Inr (resource_spec, events') \<Rightarrow>
                  Inr (resource_spec,
                       events' @ [\<lparr>event = ''unknown_resource_spec'', extra = [(''spec'', [])]\<rparr>]))
         \<and> check_l_val_str U (s @ '',,'' @ s') st =
             (case check_l_val_str U s st of
                Inl f \<Rightarrow> Inl f
              | Inr (resource_spec, events') \<Rightarrow>
                  check_l_val_str U s'
                    (resource_spec,
                     events' @ [\<lparr>event = ''unknown_resource_spec'', extra = [(''spec'', [])]\<rparr>]))"
proof -
  have "all_sub_clauses (earlier @ val_str # later) =
          (all_sub_clauses earlier @ map strip before) @ [] # (map strip after @ all_sub_clauses later)"
    using assms by (simp add: all_sub_clauses_append all_sub_clauses_Cons sub_clauses_def)
  then have general: "check_l U (earlier @ val_str # later) events =
           (case for_each (check_l_val U) (all_sub_clauses earlier @ map strip before)
                   (Map.empty, events) of
              Inl f \<Rightarrow> Inl f
            | Inr (resource_spec, events') \<Rightarrow>
                for_each (check_l_val U) (map strip after @ all_sub_clauses later)
                  (resource_spec,
                   events' @ [\<lparr>event = ''unknown_resource_spec'', extra = [(''spec'', [])]\<rparr>]))"
    by (simp only: check_l_flat for_each_around_empty)
  have empty_value: "check_l_val_str U [] (resource_spec, events) =
             Inr (resource_spec,
                  events @ [\<lparr>event = ''unknown_resource_spec'', extra = [(''spec'', [])]\<rparr>])"
    by (simp add: check_l_val_str_def sub_clauses_def strip_def check_l_val_empty)
  have "sub_clauses (s @ '','') = sub_clauses s @ [] # []"
    using split_on_trailing [of "CHR '',''" s] by (simp add: sub_clauses_def strip_def)
  then have trailing: "check_l_val_str U (s @ '','') st =
             (case check_l_val_str U s st of
                Inl f \<Rightarrow> Inl f
              | Inr (resource_spec, events') \<Rightarrow>
                  Inr (resource_spec,
                       events' @ [\<lparr>event = ''unknown_resource_spec'', extra = [(''spec'', [])]\<rparr>]))"
    by (simp only: check_l_val_str_def for_each_around_empty for_each.simps)
  have "sub_clauses (s @ '',,'' @ s') = sub_clauses s @ [] # sub_clauses s'"
    using split_on_append [of "CHR '',''" s "'','' @ s'"]
    by (simp add: sub_clauses_def strip_def)
  then have doubled: "check_l_val_str U (s @ '',,'' @ s') st =
             (case check_l_val_str U s st of
                Inl f \<Rightarrow> Inl f
              | Inr (resource_spec, events') \<Rightarrow>
                  check_l_val_str U s'
                    (resource_spec,
                     events' @ [\<lparr>event = ''unknown_resource_spec'', extra = [(''spec'', [])]\<rparr>]))"
    by (simp only: check_l_val_str_def for_each_around_empty)
  from general empty_value trailing doubled show ?thesis by blast
qed

theorem empty_sub_clause_event_witness:
  "split_on CHR '','' (strip ''walltime=3600,,mem=1gb'') = [''walltime=3600''] @ [] # [''mem=1gb'']
   \<and> split_on CHR '','' (strip ''walltime=3600,'') = [''walltime=3600''] @ [] # []
   \<and> split_on CHR '','' (strip []) = [] @ [] # []
   \<and> strip [] = []
   \<and> check_l spec_utils [''walltime=3600,,mem=1gb''] [] =
       Inr ([''walltime'' \<mapsto> RInt 3600, ''mem'' \<mapsto> RInt 1073741824],
            [\<lparr>event = ''unknown_resource_spec'', extra = [(''spec'', [])]\<rparr>])
   \<and> check_l spec_utils [''walltime=3600,''] [] =
       Inr ([''walltime'' \<mapsto> RInt 3600],
            [\<lparr>event = ''unknown_resource_spec'', extra = [(''spec'', [])]\<rparr>])
   \<and> check_l spec_utils [[]] [] =
       Inr (Map.empty, [\<lparr>event = ''unknown_resource_spec'', extra = [(''spec'', [])]\<rparr>])"
proof -
  have s1: "split_on CHR '','' (strip ''walltime=3600,,mem=1gb'') = [''walltime=3600''] @ [] # [''mem=1gb'']"
    by (simp add: strip_def isspace_def)
  have s2: "split_on CHR '','' (strip ''walltime=3600,'') = [''walltime=3600''] @ [] # []"
    by (simp add: strip_def isspace_def)
  have s3: "split_on CHR '','' (strip []) = [] @ [] # []"
    by (simp add: strip_def)
  have e1: "strip [] = []" by (simp add: strip_def)
  have wall: "check_l_val spec_utils ''walltime=3600'' (Map.empty, []) =
      Inr ([''walltime'' \<mapsto> RInt 3600], [])"
    by (simp add: eval_defs spec_utils_def duration_to_seconds_def)
  have mem: "check_l_val spec_utils ''mem=1gb'' (rs, e) = Inr (rs(''mem'' \<mapsto> RInt 1073741824), e)" for rs e
    by (simp add: eval_defs spec_utils_def size_to_bytes_def)
  have strips: "strip ''walltime=3600'' = ''walltime=3600''" "strip ''mem=1gb'' = ''mem=1gb''"
    by (simp_all add: strip_def isspace_def)
  have r1: "check_l spec_utils [''walltime=3600,,mem=1gb''] [] =
       Inr ([''walltime'' \<mapsto> RInt 3600, ''mem'' \<mapsto> RInt 1073741824],
            [\<lparr>event = ''unknown_resource_spec'', extra = [(''spec'', [])]\<rparr>])"
    using empty_sub_clause_event [OF s1 e1, of spec_utils "[]" "[]" "[]"]
    by (simp add: all_sub_clauses_def strips wall mem)
  have r2: "check_l spec_utils [''walltime=3600,''] [] =
       Inr ([''walltime'' \<mapsto> RInt 3600],
            [\<lparr>event = ''unknown_resource_spec'', extra = [(''spec'', [])]\<rparr>])"
    using empty_sub_clause_event [OF s2 e1, of spec_utils "[]" "[]" "[]"]
    by (simp add: all_sub_clauses_def strips wall)
  have r3: "check_l spec_utils [[]] [] =
       Inr (Map.empty, [\<lparr>event = ''unknown_resource_spec'', extra = [(''spec'', [])]\<rparr>])"
    using empty_sub_clause_event [OF s3 e1, of spec_utils "[]" "[]" "[]"]
    by (simp add: all_sub_clauses_def)
  from s1 s2 s3 e1 r1 r2 r3 show ?thesis by blast
qed

subsection \<open>One event for each malformed value\<close>











end
